theory Spec2Isabelle
  imports Complex_Main "HOL-Library.Multiset"
begin

unbundle bit_operations_syntax

section \<open>Errors and Python primitives\<close>

text \<open>
  The exceptions the three programs can raise: \<open>ValueError\<close> is raised explicitly by
  \<open>sqrt_newton\<close>, \<open>IndexError\<close> by indexing a list out of range, \<open>ZeroDivisionError\<close> by
  \<open>/\<close> with a zero divisor, and \<open>SystemExit\<close> by \<open>sys.exit\<close>.
\<close>

datatype error = ValueError | IndexError | ZeroDivisionError | SystemExit int

section \<open>computeStatistics.py: quicksort\<close>

text \<open>
  The loop of \<open>quicksort\<close> appends every element to one of three lists; the state of
  the loop is the triple \<open>(left, middle, right)\<close>.
\<close>

definition partition_step :: "'a::linorder \<Rightarrow> 'a \<Rightarrow> 'a list \<times> 'a list \<times> 'a list \<Rightarrow> 'a list \<times> 'a list \<times> 'a list" where
  "partition_step pivot x s =
     (case s of (left, middle, right) \<Rightarrow>
        if x < pivot then (left @ [x], middle, right)
        else if x = pivot then (left, middle @ [x], right)
        else (left, middle, right @ [x]))"

definition partition3 :: "'a::linorder \<Rightarrow> 'a list \<Rightarrow> 'a list \<times> 'a list \<times> 'a list" where
  "partition3 pivot arr = fold (partition_step pivot) arr ([], [], [])"

lemma fold_partition_step:
  "fold (partition_step p) xs (l, m, r) =
     (l @ filter (\<lambda>x. x < p) xs, m @ filter (\<lambda>x. x = p) xs, r @ filter (\<lambda>x. p < x) xs)"
  by (induction xs arbitrary: l m r) (auto simp: partition_step_def)

lemma partition3_eq:
  "partition3 p xs = (filter (\<lambda>x. x < p) xs, filter (\<lambda>x. x = p) xs, filter (\<lambda>x. p < x) xs)"
  by (simp add: partition3_def fold_partition_step)

lemma length_filter_less_of_mem:
  assumes "p \<in> set xs" and "\<not> P p"
  shows "length (filter P xs) < length xs"
  using assms by (induction xs) (auto simp: less_Suc_eq_le)

lemma left_shorter:
  "\<not> length arr \<le> 1 \<Longrightarrow>
   length (filter (\<lambda>x. x < arr ! (length arr div 2)) arr) < length (arr :: 'a::linorder list)"
  by (rule length_filter_less_of_mem [where p = "arr ! (length arr div 2)"]) simp_all

lemma right_shorter:
  "\<not> length arr \<le> 1 \<Longrightarrow>
   length (filter (\<lambda>x. arr ! (length arr div 2) < x) arr) < length (arr :: 'a::linorder list)"
  by (rule length_filter_less_of_mem [where p = "arr ! (length arr div 2)"]) simp_all

text \<open>
  \<open>arr[len(arr) // 2]\<close> is only evaluated when \<open>len(arr) > 1\<close>, so the index is in
  range and the read cannot raise.
\<close>

function quicksort :: "'a::linorder list \<Rightarrow> 'a list" where
  "quicksort arr =
     (if length arr \<le> 1 then arr
      else (case partition3 (arr ! (length arr div 2)) arr of
              (left, middle, right) \<Rightarrow> quicksort left @ middle @ quicksort right))"
  by pat_completeness auto
termination
  by (relation "measure length") (auto simp: partition3_eq left_shorter right_shorter)

declare quicksort.simps [simp del]

section \<open>computeStatistics.py: square root, mean, median, mode, variance\<close>

text \<open>
  Python's \<open>xs[i]\<close>: a negative index counts from the end, and an index outside the list
  raises \<open>IndexError\<close>.
\<close>

definition py_index :: "'a list \<Rightarrow> int \<Rightarrow> error + 'a" where
  "py_index xs i =
     (if 0 \<le> i \<and> i < int (length xs) then Inr (xs ! nat i)
      else if i < 0 \<and> 0 \<le> i + int (length xs) then Inr (xs ! nat (i + int (length xs)))
      else Inl IndexError)"

text \<open>Python's \<open>a / b\<close> on numbers raises \<open>ZeroDivisionError\<close> when \<open>b\<close> is zero.\<close>

definition py_truediv :: "real \<Rightarrow> real \<Rightarrow> error + real" where
  "py_truediv a b = (if b = 0 then Inl ZeroDivisionError else Inr (a / b))"

text \<open>
  The body of \<open>for _ in range(20): guess = (guess + x / guess) / 2\<close>, run \<open>k\<close> times from
  \<open>guess\<close>. Numbers are modelled as reals.
\<close>

primrec newton_loop :: "nat \<Rightarrow> real \<Rightarrow> real \<Rightarrow> error + real" where
  "newton_loop 0 x guess = Inr guess"
| "newton_loop (Suc k) x guess =
     (case py_truediv x guess of
        Inl e \<Rightarrow> Inl e
      | Inr q \<Rightarrow> newton_loop k x ((guess + q) / 2))"

definition sqrt_newton :: "real \<Rightarrow> error + real" where
  "sqrt_newton x =
     (if x < 0 then Inl ValueError
      else if x = 0 then Inr 0
      else newton_loop 20 x x)"

text \<open>\<open>calculate_mean\<close>: the loop keeps a running total and a count.\<close>

definition calculate_mean :: "real list \<Rightarrow> real" where
  "calculate_mean data =
     (case fold (\<lambda>num (total', count'). (total' + num, count' + 1)) data (0, 0 :: nat) of
        (total', count') \<Rightarrow> if count' > 0 then total' / real count' else 0)"

definition calculate_median :: "real list \<Rightarrow> error + real" where
  "calculate_median data =
     (let sorted_data = quicksort data;
          n = int (length sorted_data)
      in if n mod 2 = 1 then py_index sorted_data (n div 2)
         else (case py_index sorted_data (n div 2 - 1) of
                 Inl e \<Rightarrow> Inl e
               | Inr a \<Rightarrow>
                   (case py_index sorted_data (n div 2) of
                      Inl e \<Rightarrow> Inl e
                    | Inr b \<Rightarrow> Inr ((a + b) / 2))))"

text \<open>
  A Python \<open>dict\<close> keeps its keys in insertion order, and assigning to a key that is
  present keeps the key's position: an association list, updated in place or extended at
  the end.
\<close>

primrec dict_set :: "'k \<Rightarrow> 'v \<Rightarrow> ('k \<times> 'v) list \<Rightarrow> ('k \<times> 'v) list" where
  "dict_set k v [] = [(k, v)]"
| "dict_set k v (p # ps) = (if fst p = k then (k, v) # ps else p # dict_set k v ps)"

definition dict_get :: "('k \<times> 'v) list \<Rightarrow> 'k \<Rightarrow> 'v \<Rightarrow> 'v" where
  "dict_get d k dflt = (case map_of d k of None \<Rightarrow> dflt | Some v \<Rightarrow> v)"

text \<open>\<open>max(values, default=d)\<close>.\<close>

definition py_max_default :: "nat list \<Rightarrow> nat \<Rightarrow> nat" where
  "py_max_default vs d = (case vs of [] \<Rightarrow> d | v # rest \<Rightarrow> fold max rest v)"

text \<open>
  What \<open>calculate_mode\<close> returns: the string that says there is no single mode
  (\<open>NoUniqueMode\<close>), one value, or the
  list of the tied values.
\<close>

datatype 'a mode_result = NoUniqueMode | Scalar 'a | ModeList "'a list"

text \<open>
  The loop of \<open>calculate_mode\<close>: \<open>frequency[num] = frequency.get(num, 0) + 1\<close> for every
  \<open>num\<close> of the data, from the empty dictionary.
\<close>

definition frequency_step :: "'a \<Rightarrow> ('a \<times> nat) list \<Rightarrow> ('a \<times> nat) list" where
  "frequency_step num frequency = dict_set num (dict_get frequency num 0 + 1) frequency"

definition frequency_table :: "'a list \<Rightarrow> ('a \<times> nat) list" where
  "frequency_table data = fold frequency_step data []"

definition calculate_mode :: "'a list \<Rightarrow> 'a mode_result" where
  "calculate_mode data =
     (let frequency = frequency_table data;
          max_freq = py_max_default (map snd frequency) 0;
          modes = map fst (filter (\<lambda>(num, freq). freq = max_freq) frequency)
      in if length modes = length frequency then NoUniqueMode
         else if length modes = 1 then Scalar (modes ! 0)
         else ModeList modes)"

definition calculate_variance :: "real list \<Rightarrow> real \<Rightarrow> error + real" where
  "calculate_variance data mean_value =
     (let n = length data
      in if n \<le> 1 then Inr 0
         else py_truediv
                (fold (\<lambda>num sum_squared_diff.
                         (let diff = num - mean_value in sum_squared_diff + diff * diff)) data 0)
                (real n - 1))"

record statistics =
  stats_count :: nat
  stats_mean :: real
  stats_median :: real
  stats_mode :: "real mode_result"
  stats_variance :: real
  stats_std_deviation :: real

definition compute_statistics :: "real list \<Rightarrow> error + statistics" where
  "compute_statistics data =
     (let mean_value = calculate_mean data
      in case calculate_median data of
           Inl e \<Rightarrow> Inl e
         | Inr med \<Rightarrow>
             (let mode_value = calculate_mode data
              in case calculate_variance data mean_value of
                   Inl e \<Rightarrow> Inl e
                 | Inr var \<Rightarrow>
                     (case sqrt_newton var of
                        Inl e \<Rightarrow> Inl e
                      | Inr sd \<Rightarrow>
                          Inr \<lparr>stats_count = length data, stats_mean = mean_value,
                               stats_median = med, stats_mode = mode_value,
                               stats_variance = var, stats_std_deviation = sd\<rparr>)))"

text \<open>
  What \<open>main\<close> prints: the usage line (\<open>Uso: python computeStatistics.py
  archivoConDatos.txt\<close>), the line saying that no valid numbers were found in the file
  (\<open>No se encontraron numeros validos en el archivo.\<close>, with its accents), or the
  results text built from the statistics (its last line, the elapsed time, is not
  modelled).
\<close>

datatype printed = UsageLine | NoValidNumbersLine | ResultsText statistics

text \<open>
  \<open>main\<close>, with the command line \<open>argv\<close> and the list that \<open>read_data\<close> returned for the
  file as parameters. It returns what it printed and how it ended: \<open>None\<close> for a normal
  return, \<open>Some e\<close> for the exception that ended it (\<open>sys.exit(1)\<close> after the usage line
  or after the no-valid-numbers line, or an exception that \<open>compute_statistics\<close> raised
  and nothing catches). The diagnostics of \<open>read_data\<close> and the writing of the results
  file are not modelled. The numbers are reals, as everywhere in this theory.
\<close>

definition main :: "string list \<Rightarrow> real list \<Rightarrow> printed list \<times> error option" where
  "main argv data =
     (if length argv \<noteq> 2 then ([UsageLine], Some (SystemExit 1))
      else if data = [] then ([NoValidNumbersLine], Some (SystemExit 1))
      else (case compute_statistics data of
              Inl e \<Rightarrow> ([], Some e)
            | Inr stats \<Rightarrow> ([ResultsText stats], None)))"

text \<open>
  The distinct values of a list in the order of their first occurrence: the order in
  which the loop of \<open>calculate_mode\<close> inserts the keys into \<open>frequency\<close>. It is used to
  state results only.
\<close>

fun first_occurrences :: "'a list \<Rightarrow> 'a list" where
  "first_occurrences [] = []"
| "first_occurrences (x # xs) = x # filter (\<lambda>y. y \<noteq> x) (first_occurrences xs)"

text \<open>The highest number of occurrences of a value in a non-empty list.\<close>

definition max_frequency :: "'a list \<Rightarrow> nat" where
  "max_frequency data = Max (count_list data ` set data)"

text \<open>The values that occur most often, and whether all values occur equally often.\<close>

definition tied_values :: "'a list \<Rightarrow> 'a set" where
  "tied_values data = {v \<in> set data. count_list data v = max_frequency data}"

definition same_frequency :: "'a list \<Rightarrow> bool" where
  "same_frequency data = (\<forall>v\<in>set data. \<forall>w\<in>set data. count_list data v = count_list data w)"

text \<open>The sample variance as the glossary defines it, with the mean of the data.\<close>

definition sample_variance :: "real list \<Rightarrow> real" where
  "sample_variance data =
     (\<Sum>x\<leftarrow>data. (x - sum_list data / real (length data))\<^sup>2) / (real (length data) - 1)"


section \<open>wordCount.py\<close>

text \<open>
  A Python string is a sequence of Unicode code points, so a character is modelled as
  its code point and a string as a list of code points. \<open>code_points\<close> writes a literal.
\<close>

type_synonym pystr = "nat list"

definition code_points :: "string \<Rightarrow> pystr" where
  "code_points s = map of_char s"

text \<open>
  \<open>str.isspace\<close> on one character, as the host classifies it: the characters whose
  Unicode category is \<open>Zs\<close> or whose bidirectional class is \<open>WS\<close>, \<open>B\<close> or \<open>S\<close>.
\<close>

definition isspace :: "nat \<Rightarrow> bool" where
  "isspace c \<longleftrightarrow>
     (9 \<le> c \<and> c \<le> 13) \<or> (28 \<le> c \<and> c \<le> 32) \<or> c = 133 \<or> c = 160 \<or> c = 5760
     \<or> (8192 \<le> c \<and> c \<le> 8202) \<or> c = 8232 \<or> c = 8233 \<or> c = 8239 \<or> c = 8287 \<or> c = 12288"

text \<open>\<open>str.strip()\<close> removes the whitespace at both ends.\<close>

definition strip :: "pystr \<Rightarrow> pystr" where
  "strip s = rev (dropWhile isspace (rev (dropWhile isspace s)))"

text \<open>
  The inner loop of \<open>read_words\<close> over the characters of a line; its state is the list
  \<open>words\<close> and \<open>current_word\<close>.
\<close>

definition scan_char :: "nat \<Rightarrow> pystr list \<times> pystr \<Rightarrow> pystr list \<times> pystr" where
  "scan_char char s =
     (case s of (words, current_word) \<Rightarrow>
        if isspace char then
          (if current_word \<noteq> [] then (words @ [current_word], []) else (words, current_word))
        else (words, current_word @ [char]))"

text \<open>The body of the loop over the lines: strip, skip an empty line, scan, flush.\<close>

definition read_line :: "pystr \<Rightarrow> pystr list \<Rightarrow> pystr list" where
  "read_line raw words =
     (let line = strip raw
      in if line = [] then words
         else (case fold scan_char line (words, []) of
                 (words', current_word) \<Rightarrow>
                   if current_word \<noteq> [] then words' @ [current_word] else words'))"

text \<open>
  \<open>read_words\<close>, with the lines of the file as the parameter (opening the file and the
  \<open>OSError\<close> exit belong to the caller's side of the model).
\<close>

definition read_words :: "pystr list \<Rightarrow> pystr list" where
  "read_words lines = fold read_line lines []"

text \<open>\<open>" ".join(tokens)\<close>.\<close>

fun join_spaces :: "pystr list \<Rightarrow> pystr" where
  "join_spaces [] = []"
| "join_spaces [w] = w"
| "join_spaces (w # v # ws) = w @ [32] @ join_spaces (v # ws)"

text \<open>
  The tokens of a line as the spec words them: the maximal runs of non-whitespace
  characters, from left to right.
\<close>

function split_runs :: "pystr \<Rightarrow> pystr list" where
  "split_runs s =
     (case dropWhile isspace s of
        [] \<Rightarrow> []
      | c # r \<Rightarrow> (c # takeWhile (\<lambda>x. \<not> isspace x) r) # split_runs (dropWhile (\<lambda>x. \<not> isspace x) r))"
  by pat_completeness auto
termination
proof (relation "measure length", goal_cases)
  case 1
  show ?case by simp
next
  case (2 s c r)
  have "length (dropWhile (\<lambda>x. \<not> isspace x) r) \<le> length r"
    by (rule length_dropWhile_le)
  moreover have "length (dropWhile isspace s) \<le> length s"
    by (rule length_dropWhile_le)
  ultimately show ?case using 2 by simp
qed

declare split_runs.simps [simp del]

text \<open>
  The scanning loop of \<open>read_words\<close> on its own, started with \<open>current_word = cur\<close> and
  returning the words it appends, the final flush included. It is used in the proofs.
\<close>

primrec tokens_from :: "pystr \<Rightarrow> pystr \<Rightarrow> pystr list" where
  "tokens_from cur [] = (if cur \<noteq> [] then [cur] else [])"
| "tokens_from cur (c # s) =
     (if isspace c then (if cur \<noteq> [] then cur # tokens_from [] s else tokens_from [] s)
      else tokens_from (cur @ [c]) s)"

text \<open>
  \<open>count_words\<close>: the inner loop lowers a word character by character
  (\<open>'A' <= char <= 'Z'\<close>, \<open>chr(ord(char) + 32)\<close>), the outer loop counts the lowered word
  in the dictionary \<open>freq\<close>.
\<close>

definition lower_char :: "nat \<Rightarrow> nat" where
  "lower_char char = (if 65 \<le> char \<and> char \<le> 90 then char + 32 else char)"

definition lower_word :: "pystr \<Rightarrow> pystr" where
  "lower_word word = fold (\<lambda>char w. w @ [lower_char char]) word []"

definition count_step :: "pystr \<Rightarrow> (pystr \<times> nat) list \<Rightarrow> (pystr \<times> nat) list" where
  "count_step word freq =
     (let w = lower_word word
      in case map_of freq w of
           Some n \<Rightarrow> dict_set w (n + 1) freq
         | None \<Rightarrow> dict_set w 1 freq)"

definition count_words :: "pystr list \<Rightarrow> (pystr \<times> nat) list" where
  "count_words words = fold count_step words []"

section \<open>convertNumbers.py\<close>

text \<open>
  Python integers are unbounded: \<open>int\<close>. On them \<open>&\<close> is \<open>AND\<close> on the infinite
  two's-complement representation, \<open>>>\<close> is \<open>drop_bit\<close>, \<open><<\<close> is \<open>push_bit\<close>, and \<open>//\<close> and
  \<open>%\<close> are \<open>div\<close> and \<open>mod\<close> (both round towards minus infinity).

  \<open>str(n)\<close> on an integer is its decimal numeral.
\<close>

function str_nat :: "nat \<Rightarrow> string" where
  "str_nat n = (if n < 10 then [char_of (48 + n)] else str_nat (n div 10) @ [char_of (48 + n mod 10)])"
  by pat_completeness auto
termination
  by (relation "measure id") auto

declare str_nat.simps [simp del]

definition py_str :: "int \<Rightarrow> string" where
  "py_str i = (if i < 0 then CHR ''-'' # str_nat (nat (- i)) else str_nat (nat i))"

text \<open>
  The loop \<open>for i in range(bits)\<close> of the negative branch of \<open>convert_to_binary\<close>, with
  \<open>binary_str\<close> as its state.
\<close>

definition binary_fixed :: "nat \<Rightarrow> int \<Rightarrow> string" where
  "binary_fixed bits value =
     fold (\<lambda>i binary_str. binary_str @ py_str (drop_bit (bits - 1 - i) value AND 1)) [0..<bits] []"

text \<open>The loop \<open>while num > 0\<close> of the other branch, with \<open>num\<close> and \<open>binary_str\<close> as its state.\<close>

function binary_loop :: "int \<Rightarrow> string \<Rightarrow> string" where
  "binary_loop num binary_str =
     (if num > 0 then binary_loop (num div 2) (py_str (num mod 2) @ binary_str) else binary_str)"
  by pat_completeness auto
termination
  by (relation "measure (\<lambda>(num, binary_str). nat num)") auto

declare binary_loop.simps [simp del]

definition convert_to_binary :: "int \<Rightarrow> string" where
  "convert_to_binary num =
     (if num < 0 then
        (let bits = 10;
             mask = push_bit bits 1 - 1;
             value = num AND mask
         in binary_fixed bits value)
      else if num = 0 then ''0''
      else binary_loop num [])"

definition hex_digits :: string where
  "hex_digits = ''0123456789ABCDEF''"

text \<open>
  The loop \<open>for _ in range(8)\<close> of the negative branch of \<open>convert_to_hexadecimal\<close>, run
  \<open>k\<close> times, with \<open>value\<close> and \<open>hex_str\<close> as its state; \<open>hex_digits[digit]\<close> is an indexing
  that could raise.
\<close>

primrec hex_fixed :: "nat \<Rightarrow> int \<Rightarrow> string \<Rightarrow> error + string" where
  "hex_fixed 0 value hex_str = Inr hex_str"
| "hex_fixed (Suc k) value hex_str =
     (case py_index hex_digits (value AND 15) of
        Inl e \<Rightarrow> Inl e
      | Inr d \<Rightarrow> hex_fixed k (value div 16) (d # hex_str))"

function hex_loop :: "int \<Rightarrow> string \<Rightarrow> error + string" where
  "hex_loop num hex_str =
     (if num > 0 then
        (case py_index hex_digits (num mod 16) of
           Inl e \<Rightarrow> Inl e
         | Inr d \<Rightarrow> hex_loop (num div 16) (d # hex_str))
      else Inr hex_str)"
  by pat_completeness auto
termination
  by (relation "measure (\<lambda>(num, hex_str). nat num)") auto

declare hex_loop.simps [simp del]

definition convert_to_hexadecimal :: "int \<Rightarrow> error + string" where
  "convert_to_hexadecimal num =
     (if num < 0 then
        (let bits = 32 :: nat;
             mask = push_bit bits 1 - 1;
             value = num AND mask
         in hex_fixed 8 value [])
      else if num = 0 then Inr ''0''
      else hex_loop num [])"

text \<open>
  Reading a numeral back: the value of a digit character (\<open>0\<close> to \<open>9\<close>, \<open>A\<close> to \<open>F\<close>) and the
  number that a string of digits denotes in a base, most significant digit first. They
  are used to state results only.
\<close>

definition digit_value :: "char \<Rightarrow> nat" where
  "digit_value c = (let n = of_char c :: nat in if n \<le> 57 then n - 48 else n - 55)"

definition string_value :: "nat \<Rightarrow> string \<Rightarrow> nat" where
  "string_value base s = foldl (\<lambda>a c. a * base + digit_value c) 0 s"

text \<open>
  The \<open>n\<close> lowest bits of an integer as characters, most significant first. It is used
  in the proofs, as the closed form of the loop \<open>binary_fixed\<close>.
\<close>

definition bit_chars :: "nat \<Rightarrow> int \<Rightarrow> string" where
  "bit_chars n v = map (\<lambda>i. if bit v (n - 1 - i) then CHR ''1'' else CHR ''0'') [0..<n]"

section \<open>Properties of quicksort\<close>

lemma quicksort_short: "length arr \<le> 1 \<Longrightarrow> quicksort arr = arr"
  by (simp add: quicksort.simps)

lemma quicksort_long:
  "\<not> length arr \<le> 1 \<Longrightarrow>
   quicksort arr =
     quicksort (filter (\<lambda>x. x < arr ! (length arr div 2)) arr)
     @ filter (\<lambda>x. x = arr ! (length arr div 2)) arr
     @ quicksort (filter (\<lambda>x. arr ! (length arr div 2) < x) arr)"
  by (subst quicksort.simps) (simp add: partition3_eq)

lemma mset_three_way:
  "mset (filter (\<lambda>x. x < p) xs) + mset (filter (\<lambda>x. x = p) xs) + mset (filter (\<lambda>x. p < x) xs)
     = mset (xs :: 'a::linorder list)"
  by (induction xs) auto

lemma sorted_filter_eq: "sorted (filter (\<lambda>x. x = p) (xs :: 'a::linorder list))"
  by (induction xs) auto

lemma mset_quicksort: "mset (quicksort arr) = mset arr"
proof (induction arr rule: quicksort.induct)
  case (1 arr)
  show ?case
  proof (cases "length arr \<le> 1")
    case True
    then show ?thesis by (simp add: quicksort_short)
  next
    case False
    let ?p = "arr ! (length arr div 2)"
    have l: "mset (quicksort (filter (\<lambda>x. x < ?p) arr)) = mset (filter (\<lambda>x. x < ?p) arr)"
      by (rule "1.IH"(1) [OF False, of _ "(filter (\<lambda>x. x = ?p) arr, filter (\<lambda>x. ?p < x) arr)" "filter (\<lambda>x. x = ?p) arr" "filter (\<lambda>x. ?p < x) arr"])
        (simp_all add: partition3_eq)
    have r: "mset (quicksort (filter (\<lambda>x. ?p < x) arr)) = mset (filter (\<lambda>x. ?p < x) arr)"
      by (rule "1.IH"(2) [OF False, of "filter (\<lambda>x. x < ?p) arr" "(filter (\<lambda>x. x = ?p) arr, filter (\<lambda>x. ?p < x) arr)" "filter (\<lambda>x. x = ?p) arr"])
        (simp_all add: partition3_eq)
    show ?thesis
      using mset_three_way [of ?p arr] by (simp add: quicksort_long [OF False] l r ac_simps)
  qed
qed

lemma set_quicksort: "set (quicksort arr) = set arr"
  using mset_quicksort [of arr] by (metis set_mset_mset)

lemma sorted_quicksort: "sorted (quicksort arr)"
proof (induction arr rule: quicksort.induct)
  case (1 arr)
  show ?case
  proof (cases "length arr \<le> 1")
    case True
    then have "sorted arr" by (cases arr) auto
    with True show ?thesis by (simp add: quicksort_short)
  next
    case False
    let ?p = "arr ! (length arr div 2)"
    have l: "sorted (quicksort (filter (\<lambda>x. x < ?p) arr))"
      by (rule "1.IH"(1) [OF False, of _ "(filter (\<lambda>x. x = ?p) arr, filter (\<lambda>x. ?p < x) arr)" "filter (\<lambda>x. x = ?p) arr" "filter (\<lambda>x. ?p < x) arr"])
        (simp_all add: partition3_eq)
    have r: "sorted (quicksort (filter (\<lambda>x. ?p < x) arr))"
      by (rule "1.IH"(2) [OF False, of "filter (\<lambda>x. x < ?p) arr" "(filter (\<lambda>x. x = ?p) arr, filter (\<lambda>x. ?p < x) arr)" "filter (\<lambda>x. x = ?p) arr"])
        (simp_all add: partition3_eq)
    have m: "sorted (filter (\<lambda>x. x = ?p) arr)"
      by (rule sorted_filter_eq)
    show ?thesis
      by (simp add: quicksort_long [OF False] sorted_append l r m set_quicksort) fastforce
  qed
qed

text \<open>
  C1. For every finite list of numbers, \<open>quicksort\<close> returns a list that is
  non-decreasing and whose multiset of elements is the multiset of the input. The
  statement is for every list, so it covers the empty list, singletons, all-equal lists,
  sorted lists and reverse-sorted lists. Numbers are modelled as any linear order.
\<close>

theorem quicksort_sorted_permutation:
  "sorted (quicksort arr) \<and> mset (quicksort arr) = mset arr"
  by (simp add: sorted_quicksort mset_quicksort)

subsection \<open>The square root\<close>

lemma newton_loop_pos:
  "0 < x \<Longrightarrow> 0 < g \<Longrightarrow> \<exists>g'. newton_loop k x g = Inr g' \<and> 0 < g'"
proof (induction k arbitrary: g)
  case 0
  then show ?case by simp
next
  case (Suc k)
  from Suc.prems have "0 < (g + x / g) / 2" by (simp add: add_pos_pos)
  from Suc.IH [OF Suc.prems(1) this] Suc.prems show ?case
    by (simp add: py_truediv_def)
qed

lemma newton_loop_zero_guess: "newton_loop (Suc k) x 0 = Inl ZeroDivisionError"
  by (simp add: py_truediv_def)

lemma sqrt_newton_pos: "0 < x \<Longrightarrow> \<exists>r. sqrt_newton x = Inr r \<and> 0 < r"
  using newton_loop_pos [of x x 20] by (simp add: sqrt_newton_def)

text \<open>
  C6. \<open>sqrt_newton\<close> fails exactly when its argument is negative, and then with
  \<open>ValueError\<close> (the spec's NegativeDomainError); it returns 0 exactly when the argument
  is 0. That 0 does not come from the iteration: started at 0, the first refinement
  divides by zero.
\<close>

theorem sqrt_newton_domain:
  "((\<exists>e. sqrt_newton x = Inl e) \<longleftrightarrow> x < 0)
   \<and> (sqrt_newton x = Inl ValueError \<longleftrightarrow> x < 0)
   \<and> (sqrt_newton x = Inr 0 \<longleftrightarrow> x = 0)
   \<and> newton_loop 20 0 0 = Inl ZeroDivisionError"
proof -
  consider "x < 0" | "x = 0" | "0 < x" by linarith
  then have "((\<exists>e. sqrt_newton x = Inl e) \<longleftrightarrow> x < 0)
     \<and> (sqrt_newton x = Inl ValueError \<longleftrightarrow> x < 0)
     \<and> (sqrt_newton x = Inr 0 \<longleftrightarrow> x = 0)"
  proof cases
    case 1
    then show ?thesis by (simp add: sqrt_newton_def)
  next
    case 2
    then show ?thesis by (simp add: sqrt_newton_def)
  next
    case 3
    with sqrt_newton_pos [OF 3] show ?thesis by auto
  qed
  moreover have "newton_loop 20 0 0 = Inl ZeroDivisionError"
    using newton_loop_zero_guess [of 19 0] by simp
  ultimately show ?thesis by blast
qed

theorem sqrt_newton_domain_witness:
  "sqrt_newton (-1) = Inl ValueError \<and> sqrt_newton 0 = Inr 0 \<and> sqrt_newton 1 \<noteq> Inr 0
   \<and> (\<forall>e. sqrt_newton 1 \<noteq> Inl e)"
  using sqrt_newton_domain [of "-1"] sqrt_newton_domain [of 0] sqrt_newton_domain [of 1]
  by simp

text \<open>
  C10. For \<open>x > 0\<close> the guess is strictly positive after every number \<open>k \<le> 20\<close> of
  refinements, so no division \<open>x / guess\<close> has a zero divisor and the loop ends with a
  positive result; with the early return at \<open>x = 0\<close>, \<open>sqrt_newton\<close> raises no
  \<open>ZeroDivisionError\<close> for any \<open>x \<ge> 0\<close>: it returns a number.
\<close>

theorem sqrt_newton_guess_positive:
  "(0 < x \<longrightarrow> (\<forall>k\<le>20. \<exists>g. newton_loop k x x = Inr g \<and> 0 < g))
   \<and> (0 \<le> x \<longrightarrow> sqrt_newton x \<noteq> Inl ZeroDivisionError \<and> (\<exists>r. sqrt_newton x = Inr r))"
proof (intro conjI impI allI)
  fix k :: nat
  assume "0 < x"
  then show "\<exists>g. newton_loop k x x = Inr g \<and> 0 < g"
    using newton_loop_pos [of x x k] by simp
next
  assume x: "0 \<le> x"
  show "sqrt_newton x \<noteq> Inl ZeroDivisionError"
  proof (cases "x = 0")
    case True
    then show ?thesis by (simp add: sqrt_newton_def)
  next
    case False
    with x have "0 < x" by simp
    from sqrt_newton_pos [OF this] show ?thesis by auto
  qed
next
  assume x: "0 \<le> x"
  show "\<exists>r. sqrt_newton x = Inr r"
  proof (cases "x = 0")
    case True
    then show ?thesis by (simp add: sqrt_newton_def)
  next
    case False
    with x have "0 < x" by simp
    from sqrt_newton_pos [OF this] show ?thesis by auto
  qed
qed

theorem sqrt_newton_guess_positive_witness:
  "(0::real) < 1 \<and> (\<exists>g. newton_loop 20 1 1 = Inr g \<and> 0 < g)
   \<and> sqrt_newton 1 \<noteq> Inl ZeroDivisionError \<and> (\<exists>r. sqrt_newton 0 = Inr r)"
  using sqrt_newton_guess_positive [of 1] sqrt_newton_guess_positive [of 0]
  by simp

subsection \<open>Mean and variance\<close>

lemma fold_mean_loop:
  "fold (\<lambda>num (total', count'). (total' + num, count' + 1)) data (t, c :: nat)
     = (t + sum_list data, c + length data)"
  by (induction data arbitrary: t c) (simp_all add: algebra_simps)

lemma calculate_mean_eq:
  "calculate_mean data = (if data = [] then 0 else sum_list data / real (length data))"
  unfolding calculate_mean_def fold_mean_loop by simp

lemma fold_squared_diff:
  "fold (\<lambda>num sum_squared_diff. (let diff = num - m in sum_squared_diff + diff * diff)) data acc
     = acc + (\<Sum>x\<leftarrow>data. (x - m)\<^sup>2)" for m :: real
  by (induction data arbitrary: acc) (simp_all add: Let_def power2_eq_square)

lemma calculate_variance_short: "length data \<le> 1 \<Longrightarrow> calculate_variance data m = Inr 0"
  by (simp add: calculate_variance_def)

lemma calculate_variance_long:
  "2 \<le> length data \<Longrightarrow>
   calculate_variance data m = Inr ((\<Sum>x\<leftarrow>data. (x - m)\<^sup>2) / (real (length data) - 1))"
  unfolding calculate_variance_def fold_squared_diff by (simp add: py_truediv_def)

text \<open>
  C7. \<open>calculate_variance\<close> returns 0 for a dataset of at most one element and, for two
  or more, the sum of the squared deviations from the mean it is given, divided by
  \<open>n - 1\<close>; it never fails. With the mean that \<open>compute_statistics\<close> passes
  (\<open>calculate_mean data\<close>) this is the sample variance.
\<close>

theorem calculate_variance_sample:
  "(length data \<le> 1 \<longrightarrow> calculate_variance data m = Inr 0)
   \<and> (2 \<le> length data \<longrightarrow>
        calculate_variance data m = Inr ((\<Sum>x\<leftarrow>data. (x - m)\<^sup>2) / (real (length data) - 1)))
   \<and> (2 \<le> length data \<longrightarrow>
        calculate_variance data (calculate_mean data) = Inr (sample_variance data))"
proof (intro conjI impI)
  assume "length data \<le> 1"
  then show "calculate_variance data m = Inr 0" by (rule calculate_variance_short)
next
  assume "2 \<le> length data"
  then show "calculate_variance data m = Inr ((\<Sum>x\<leftarrow>data. (x - m)\<^sup>2) / (real (length data) - 1))"
    by (rule calculate_variance_long)
next
  assume n: "2 \<le> length data"
  then have "data \<noteq> []" by auto
  then show "calculate_variance data (calculate_mean data) = Inr (sample_variance data)"
    by (simp add: calculate_variance_long [OF n] calculate_mean_eq sample_variance_def)
qed

theorem calculate_variance_sample_witness:
  "calculate_variance [5] 5 = Inr 0
   \<and> calculate_variance [] 0 = Inr 0
   \<and> calculate_variance [2, 4, 4, 4, 5, 5, 7, 9] (calculate_mean [2, 4, 4, 4, 5, 5, 7, 9]) = Inr (32 / 7)"
  using calculate_variance_sample [of "[5]" 5] calculate_variance_sample [of "[]" 0]
    calculate_variance_sample [of "[2, 4, 4, 4, 5, 5, 7, 9]" 0]
  by (simp add: sample_variance_def)

subsection \<open>The empty dataset\<close>

lemma py_index_in_range: "0 \<le> i \<Longrightarrow> i < int (length xs) \<Longrightarrow> py_index xs i = Inr (xs ! nat i)"
  by (simp add: py_index_def)

lemma calculate_median_empty: "calculate_median [] = Inl IndexError"
  by (simp add: calculate_median_def quicksort_short py_index_def)

text \<open>
  C4, as the spec states it, fails: \<open>compute_statistics\<close> has no check of its own for an
  empty dataset and no error dedicated to it. On the empty list the error that comes
  out is the \<open>IndexError\<close> of \<open>sorted_data[n // 2 - 1]\<close> in \<open>calculate_median\<close>.
\<close>

theorem compute_statistics_empty_counterexample:
  "compute_statistics [] = Inl IndexError \<and> calculate_median [] = Inl IndexError"
  by (simp add: compute_statistics_def calculate_median_empty)

text \<open>
  C4, amended. An empty dataset is surfaced explicitly, but by the caller \<open>main\<close> and not
  by an error of \<open>compute_statistics\<close>: given an empty dataset and a well-formed command
  line, \<open>main\<close> prints the line saying that no valid numbers were found and leaves with
  \<open>sys.exit(1)\<close>; whatever the command line, on an empty dataset \<open>main\<close> ends with
  \<open>sys.exit(1)\<close> and prints no statistics.
\<close>

theorem empty_dataset_guarded_by_main:
  "(length argv = 2 \<longrightarrow> main argv [] = ([NoValidNumbersLine], Some (SystemExit 1)))
   \<and> snd (main argv []) = Some (SystemExit 1)
   \<and> (\<forall>s. ResultsText s \<notin> set (fst (main argv [])))"
  by (simp add: main_def)

theorem empty_dataset_guarded_by_main_witness:
  "main [''computeStatistics.py'', ''data.txt''] [] = ([NoValidNumbersLine], Some (SystemExit 1))
   \<and> snd (main [''computeStatistics.py''] []) = Some (SystemExit 1)"
  using empty_dataset_guarded_by_main [of "[''computeStatistics.py'', ''data.txt'']"]
    empty_dataset_guarded_by_main [of "[''computeStatistics.py'']"]
  by simp

subsection \<open>The mode\<close>

lemma set_first_occurrences: "set (first_occurrences xs) = set xs"
  by (induction xs) auto

lemma distinct_first_occurrences: "distinct (first_occurrences xs)"
  by (induction xs) (auto simp: set_first_occurrences)

lemma keys_dict_set:
  "map fst (dict_set k v d) = (if k \<in> set (map fst d) then map fst d else map fst d @ [k])"
  by (induction d) auto

lemma dict_get_dict_set:
  "dict_get (dict_set k v d) k' dflt = (if k' = k then v else dict_get d k' dflt)"
  by (induction d) (auto simp: dict_get_def)

lemma keys_frequency_step:
  "map fst (frequency_step x d) = (if x \<in> set (map fst d) then map fst d else map fst d @ [x])"
  by (simp add: frequency_step_def keys_dict_set)

lemma keys_fold_frequency_step:
  "map fst (fold frequency_step data d)
     = map fst d @ filter (\<lambda>k. k \<notin> set (map fst d)) (first_occurrences data)"
proof (induction data arbitrary: d)
  case Nil
  then show ?case by simp
next
  case (Cons x xs)
  show ?case
  proof (cases "x \<in> set (map fst d)")
    case True
    then have "filter (\<lambda>k. k \<notin> set (map fst d)) (filter (\<lambda>y. y \<noteq> x) (first_occurrences xs))
      = filter (\<lambda>k. k \<notin> set (map fst d)) (first_occurrences xs)"
      by (auto simp: filter_filter intro!: filter_cong)
    with True show ?thesis
      by (simp add: Cons.IH keys_frequency_step)
  next
    case False
    then have "filter (\<lambda>k. k \<notin> set (map fst d @ [x])) (first_occurrences xs)
      = filter (\<lambda>k. k \<notin> set (map fst d)) (filter (\<lambda>y. y \<noteq> x) (first_occurrences xs))"
      by (auto simp: filter_filter intro!: filter_cong)
    with False show ?thesis
      by (simp add: Cons.IH keys_frequency_step)
  qed
qed

lemma dict_get_fold_frequency_step:
  "dict_get (fold frequency_step data d) k 0 = dict_get d k 0 + count_list data k"
  by (induction data arbitrary: d) (auto simp: frequency_step_def dict_get_dict_set)

lemma dict_get_member:
  "distinct (map fst d) \<Longrightarrow> (k, v) \<in> set d \<Longrightarrow> dict_get d k dflt = v"
  by (simp add: dict_get_def)

lemma dict_from_keys:
  assumes "distinct (map fst d)"
  shows "map (\<lambda>k. (k, dict_get d k dflt)) (map fst d) = d"
proof -
  have "map (\<lambda>p. (fst p, dict_get d (fst p) dflt)) d = d"
  proof (rule map_idI)
    fix p assume "p \<in> set d"
    then have "(fst p, snd p) \<in> set d" by simp
    from dict_get_member [OF assms this] show "(fst p, dict_get d (fst p) dflt) = p"
      by (simp add: prod_eq_iff)
  qed
  then show ?thesis by (simp add: comp_def)
qed

lemma frequency_table_eq:
  "frequency_table data = map (\<lambda>k. (k, count_list data k)) (first_occurrences data)"
proof -
  have keys: "map fst (frequency_table data) = first_occurrences data"
    by (simp add: frequency_table_def keys_fold_frequency_step)
  have get: "dict_get (frequency_table data) k 0 = count_list data k" for k
    unfolding frequency_table_def dict_get_fold_frequency_step by (simp add: dict_get_def)
  have "distinct (map fst (frequency_table data))"
    by (simp add: keys distinct_first_occurrences)
  from dict_from_keys [OF this, of 0] show ?thesis
    unfolding keys get by simp
qed

lemma py_max_default_Max: "vs \<noteq> [] \<Longrightarrow> py_max_default vs d = Max (set vs)"
  by (cases vs) (simp_all add: py_max_default_def Max.set_eq_fold [symmetric])

lemma modes_of_table:
  "map fst (filter (\<lambda>(num, freq). freq = mx) (map (\<lambda>k. (k, c k)) ks)) = filter (\<lambda>k. c k = mx) ks"
  by (induction ks) simp_all

lemma calculate_mode_eq:
  assumes "data \<noteq> []"
  shows "calculate_mode data =
    (let modes = filter (\<lambda>k. count_list data k = max_frequency data) (first_occurrences data)
     in if length modes = length (first_occurrences data) then NoUniqueMode
        else if length modes = 1 then Scalar (modes ! 0)
        else ModeList modes)"
proof -
  from assms have ne: "first_occurrences data \<noteq> []" by (cases data) simp_all
  have "map snd (frequency_table data) = map (count_list data) (first_occurrences data)"
    by (simp add: frequency_table_eq comp_def)
  then have mx: "py_max_default (map snd (frequency_table data)) 0 = max_frequency data"
    using ne by (simp add: py_max_default_Max max_frequency_def set_first_occurrences)
  show ?thesis
    unfolding calculate_mode_def mx Let_def
    by (simp add: frequency_table_eq modes_of_table)
qed

lemma length_filter_eq_iff: "length (filter P xs) = length xs \<longleftrightarrow> (\<forall>x\<in>set xs. P x)"
proof (induction xs)
  case Nil
  then show ?case by simp
next
  case (Cons x xs)
  have le: "length (filter P xs) \<le> length xs" by (rule length_filter_le)
  show ?case
  proof (cases "P x")
    case True
    with Cons show ?thesis by simp
  next
    case False
    have "length (filter P xs) \<noteq> Suc (length xs)" using le by linarith
    with False show ?thesis by auto
  qed
qed

lemma all_max_iff_same_frequency:
  assumes "data \<noteq> []"
  shows "(\<forall>k\<in>set data. count_list data k = max_frequency data) \<longleftrightarrow> same_frequency data"
proof
  assume "\<forall>k\<in>set data. count_list data k = max_frequency data"
  then show "same_frequency data" by (simp add: same_frequency_def)
next
  assume same: "same_frequency data"
  from assms have "max_frequency data \<in> count_list data ` set data"
    unfolding max_frequency_def by (intro Max_in) auto
  then obtain w where "w \<in> set data" "max_frequency data = count_list data w" by blast
  with same show "\<forall>k\<in>set data. count_list data k = max_frequency data"
    unfolding same_frequency_def by metis
qed

lemma modes_list_facts:
  "distinct (filter (\<lambda>k. count_list data k = max_frequency data) (first_occurrences data))"
  "set (filter (\<lambda>k. count_list data k = max_frequency data) (first_occurrences data)) = tied_values data"
  by (auto simp: distinct_first_occurrences set_first_occurrences tied_values_def)

lemma calculate_mode_sentinel:
  assumes "data \<noteq> []"
  shows "calculate_mode data = NoUniqueMode \<longleftrightarrow> same_frequency data"
proof -
  have "calculate_mode data = NoUniqueMode \<longleftrightarrow>
    length (filter (\<lambda>k. count_list data k = max_frequency data) (first_occurrences data))
      = length (first_occurrences data)"
    by (simp add: calculate_mode_eq [OF assms] Let_def)
  also have "\<dots> \<longleftrightarrow> (\<forall>k\<in>set data. count_list data k = max_frequency data)"
    by (simp add: length_filter_eq_iff set_first_occurrences)
  also have "\<dots> \<longleftrightarrow> same_frequency data"
    by (rule all_max_iff_same_frequency [OF assms])
  finally show ?thesis .
qed

lemma calculate_mode_scalar:
  assumes "data \<noteq> []" "\<not> same_frequency data" "tied_values data = {m}"
  shows "calculate_mode data = Scalar m"
proof -
  let ?modes = "filter (\<lambda>k. count_list data k = max_frequency data) (first_occurrences data)"
  have "card (set ?modes) = length ?modes"
    by (rule distinct_card [OF modes_list_facts(1)])
  with assms(3) have len: "length ?modes = 1" by (simp only: modes_list_facts(2)) simp
  then obtain y where y: "?modes = [y]" by (cases ?modes) auto
  then have "set ?modes = {y}" by simp
  with assms(3) have "y = m" by (simp only: modes_list_facts(2)) simp
  have "length ?modes \<noteq> length (first_occurrences data)"
    using assms(1,2) by (simp add: length_filter_eq_iff set_first_occurrences all_max_iff_same_frequency)
  with len y \<open>y = m\<close> show ?thesis
    by (simp add: calculate_mode_eq [OF assms(1)] Let_def)
qed

lemma calculate_mode_list:
  assumes "data \<noteq> []" "\<not> same_frequency data" "card (tied_values data) \<noteq> 1"
  shows "calculate_mode data
    = ModeList (filter (\<lambda>k. count_list data k = max_frequency data) (first_occurrences data))"
proof -
  let ?modes = "filter (\<lambda>k. count_list data k = max_frequency data) (first_occurrences data)"
  have "card (set ?modes) = length ?modes"
    by (rule distinct_card [OF modes_list_facts(1)])
  with assms(3) have len: "length ?modes \<noteq> 1" by (simp only: modes_list_facts(2)) simp
  have "length ?modes \<noteq> length (first_occurrences data)"
    using assms(1,2) by (simp add: length_filter_eq_iff set_first_occurrences all_max_iff_same_frequency)
  with len show ?thesis
    by (simp add: calculate_mode_eq [OF assms(1)] Let_def)
qed

lemma calculate_mode_empty: "calculate_mode [] = NoUniqueMode"
  by (simp add: calculate_mode_def frequency_table_def py_max_default_def)

lemma frequency_table_ties: "frequency_table [3, 3, 1, 1, 2 :: real] = [(3, 2), (1, 2), (2, 1)]"
  by (simp add: frequency_table_def frequency_step_def dict_get_def)

lemma calculate_mode_ties: "calculate_mode [3, 3, 1, 1, 2 :: real] = ModeList [3, 1]"
  unfolding calculate_mode_def frequency_table_ties by (simp add: py_max_default_def)

lemma first_occurrences_ties: "first_occurrences [3, 3, 1, 1, 2 :: real] = [3, 1, 2]"
  by simp

lemma max_frequency_ties: "max_frequency [3, 3, 1, 1, 2 :: real] = 2"
  by (simp add: max_frequency_def)

lemma same_frequency_unique: "same_frequency [1, 2, 3 :: real]"
  by (simp add: same_frequency_def)

lemma not_same_frequency_one_mode: "\<not> same_frequency [1, 1, 2 :: real]"
  by (simp add: same_frequency_def)

lemma max_frequency_one_mode: "max_frequency [1, 1, 2 :: real] = 2"
  by (simp add: max_frequency_def)

lemma tied_values_one_mode: "tied_values [1, 1, 2 :: real] = {1}"
  unfolding tied_values_def max_frequency_one_mode by auto

lemma not_same_frequency_two_modes: "\<not> same_frequency [1, 1, 2, 2, 3 :: real]"
  by (simp add: same_frequency_def)

lemma max_frequency_two_modes: "max_frequency [1, 1, 2, 2, 3 :: real] = 2"
  by (simp add: max_frequency_def)

lemma tied_values_two_modes: "tied_values [1, 1, 2, 2, 3 :: real] = {1, 2}"
  unfolding tied_values_def max_frequency_two_modes by auto

lemma card_tied_values_two_modes: "card (tied_values [1, 1, 2, 2, 3 :: real]) \<noteq> 1"
  unfolding tied_values_two_modes by simp

text \<open>
  C3, as the spec states it, fails: the tied values come out in the order in which the
  loop inserted them into \<open>frequency\<close>, and nothing sorts them. In \<open>[3, 3, 1, 1, 2]\<close> the
  values 3 and 1 both occur twice and 2 once; the result is \<open>[3, 1]\<close>, which is not
  ascending.
\<close>

theorem calculate_mode_order_counterexample:
  "calculate_mode [3, 3, 1, 1, 2 :: real] = ModeList [3, 1] \<and> \<not> sorted [3, 1 :: real]"
  using calculate_mode_ties by simp

text \<open>
  C3, amended. When \<open>calculate_mode\<close> returns a list of tied values, the list holds the
  values of maximal frequency in the order of their first occurrence in the dataset
  (the iteration order of the frequency dictionary): a function of the dataset, hence
  deterministic, but not ascending in general.
\<close>

theorem calculate_mode_ties_first_occurrence:
  "calculate_mode data = ModeList ms \<longrightarrow>
     ms = filter (\<lambda>v. count_list data v = max_frequency data) (first_occurrences data)
     \<and> distinct ms \<and> set ms = tied_values data"
proof
  assume ml: "calculate_mode data = ModeList ms"
  then have ne: "data \<noteq> []" by (auto simp: calculate_mode_empty)
  from ml have "ms = filter (\<lambda>v. count_list data v = max_frequency data) (first_occurrences data)"
    by (simp add: calculate_mode_eq [OF ne] Let_def split: if_splits)
  then show "ms = filter (\<lambda>v. count_list data v = max_frequency data) (first_occurrences data)
     \<and> distinct ms \<and> set ms = tied_values data"
    by (simp only: modes_list_facts)
qed

theorem calculate_mode_ties_first_occurrence_witness:
  "calculate_mode [3, 3, 1, 1, 2 :: real] = ModeList [3, 1]
   \<and> [3, 1] = filter (\<lambda>v. count_list [3, 3, 1, 1, 2 :: real] v = max_frequency [3, 3, 1, 1, 2 :: real])
                 (first_occurrences [3, 3, 1, 1, 2])
   \<and> set [3, 1 :: real] = tied_values [3, 3, 1, 1, 2]"
  using calculate_mode_ties_first_occurrence [of "[3, 3, 1, 1, 2 :: real]" "[3, 1]"]
    calculate_mode_ties
  by blast

text \<open>
  C5. For every non-empty dataset, \<open>calculate_mode\<close> returns the sentinel exactly when
  every distinct value occurs with the same frequency (all-unique datasets included);
  otherwise, when exactly one value attains the maximum frequency, it returns that
  value; otherwise it returns the list of the tied values. The three cases are those of
  the claim, in its order.
\<close>

theorem calculate_mode_cases:
  "data \<noteq> [] \<longrightarrow>
     (calculate_mode data = NoUniqueMode \<longleftrightarrow> same_frequency data)
     \<and> (\<not> same_frequency data \<and> tied_values data = {m} \<longrightarrow> calculate_mode data = Scalar m)
     \<and> (\<not> same_frequency data \<and> card (tied_values data) \<noteq> 1 \<longrightarrow>
          (\<exists>ms. calculate_mode data = ModeList ms \<and> distinct ms \<and> set ms = tied_values data))"
proof (intro impI conjI)
  assume "data \<noteq> []"
  then show "calculate_mode data = NoUniqueMode \<longleftrightarrow> same_frequency data"
    by (rule calculate_mode_sentinel)
next
  assume "data \<noteq> []" and "\<not> same_frequency data \<and> tied_values data = {m}"
  then show "calculate_mode data = Scalar m"
    by (simp add: calculate_mode_scalar)
next
  assume ne: "data \<noteq> []" and h: "\<not> same_frequency data \<and> card (tied_values data) \<noteq> 1"
  from h have "calculate_mode data
      = ModeList (filter (\<lambda>k. count_list data k = max_frequency data) (first_occurrences data))"
    using calculate_mode_list [OF ne] by simp
  then show "\<exists>ms. calculate_mode data = ModeList ms \<and> distinct ms \<and> set ms = tied_values data"
    using modes_list_facts [of data] by simp
qed
theorem calculate_mode_cases_witness:
  "calculate_mode [1, 2, 3 :: real] = NoUniqueMode
   \<and> calculate_mode [1, 1, 2 :: real] = Scalar 1
   \<and> (\<exists>ms. calculate_mode [1, 1, 2, 2, 3 :: real] = ModeList ms
          \<and> distinct ms \<and> set ms = tied_values [1, 1, 2, 2, 3])"
proof -
  have ne: "[1, 2, 3 :: real] \<noteq> []" "[1, 1, 2 :: real] \<noteq> []" "[1, 1, 2, 2, 3 :: real] \<noteq> []"
    by simp_all
  show ?thesis
    using calculate_mode_cases [of "[1, 2, 3 :: real]" 0]
      calculate_mode_cases [of "[1, 1, 2 :: real]" 1]
      calculate_mode_cases [of "[1, 1, 2, 2, 3 :: real]" 0]
      ne same_frequency_unique not_same_frequency_one_mode tied_values_one_mode
      not_same_frequency_two_modes card_tied_values_two_modes
    by blast
qed

section \<open>Properties of wordCount.py\<close>

lemma fold_scan_char:
  "(case fold scan_char s (ws, cur) of
      (words', current_word) \<Rightarrow> if current_word \<noteq> [] then words' @ [current_word] else words')
   = ws @ tokens_from cur s"
  by (induction s arbitrary: ws cur) (simp_all add: scan_char_def)

lemma tokens_from_all_space: "\<forall>c\<in>set t. isspace c \<Longrightarrow> tokens_from [] t = []"
  by (induction t) simp_all

lemma tokens_from_trailing:
  "\<forall>c\<in>set t. isspace c \<Longrightarrow> tokens_from cur (s @ t) = tokens_from cur s"
proof (induction s arbitrary: cur)
  case Nil
  then show ?case by (cases t) (simp_all add: tokens_from_all_space)
next
  case (Cons c s)
  then show ?case by simp
qed

lemma tokens_from_leading: "tokens_from [] (dropWhile isspace s) = tokens_from [] s"
  by (induction s) simp_all

lemma strip_decompose:
  "\<exists>t. (\<forall>c\<in>set t. isspace c) \<and> dropWhile isspace s = strip s @ t"
proof -
  let ?d = "dropWhile isspace s"
  have "rev ?d = takeWhile isspace (rev ?d) @ dropWhile isspace (rev ?d)" by simp
  then have "?d = rev (dropWhile isspace (rev ?d)) @ rev (takeWhile isspace (rev ?d))"
    by (metis rev_append rev_rev_ident)
  moreover have "\<forall>c\<in>set (rev (takeWhile isspace (rev ?d))). isspace c"
    by (auto dest: set_takeWhileD)
  ultimately show ?thesis unfolding strip_def by blast
qed

lemma tokens_from_strip: "tokens_from [] (strip s) = tokens_from [] s"
proof -
  from strip_decompose [of s] obtain t
    where t: "\<forall>c\<in>set t. isspace c" and d: "dropWhile isspace s = strip s @ t" by blast
  have "tokens_from [] s = tokens_from [] (strip s @ t)"
    using tokens_from_leading [of s] d by simp
  with t show ?thesis by (simp add: tokens_from_trailing)
qed

lemma read_line_tokens: "read_line raw ws = ws @ tokens_from [] raw"
proof (cases "strip raw = []")
  case True
  with tokens_from_strip [of raw] show ?thesis by (simp add: read_line_def)
next
  case False
  then show ?thesis
    unfolding read_line_def Let_def fold_scan_char by (simp add: tokens_from_strip)
qed

lemma read_words_single: "read_words [line] = tokens_from [] line"
  by (simp add: read_words_def read_line_tokens)

lemma split_runs_nil: "split_runs [] = []"
  by (simp add: split_runs.simps)

lemma split_runs_space: "isspace c \<Longrightarrow> split_runs (c # s) = split_runs s"
  by (simp add: split_runs.simps [of "c # s"] split_runs.simps [of s])

lemma split_runs_nonspace:
  "\<not> isspace c \<Longrightarrow>
   split_runs (c # s)
     = (c # takeWhile (\<lambda>x. \<not> isspace x) s) # split_runs (dropWhile (\<lambda>x. \<not> isspace x) s)"
  by (simp add: split_runs.simps [of "c # s"])

lemma tokens_from_runs:
  "tokens_from cur s =
     (if cur @ takeWhile (\<lambda>x. \<not> isspace x) s \<noteq> []
      then (cur @ takeWhile (\<lambda>x. \<not> isspace x) s) # split_runs (dropWhile (\<lambda>x. \<not> isspace x) s)
      else split_runs (dropWhile (\<lambda>x. \<not> isspace x) s))"
proof (induction s arbitrary: cur)
  case Nil
  then show ?case by (simp add: split_runs_nil)
next
  case (Cons c s)
  show ?case
  proof (cases "isspace c")
    case True
    have "tokens_from [] s = split_runs s"
    proof (cases s)
      case Nil
      then show ?thesis by (simp add: split_runs_nil)
    next
      case (Cons d r)
      then show ?thesis
        using Cons.IH [of "[]"] by (cases "isspace d") (simp_all add: split_runs_nonspace)
    qed
    with True show ?thesis by (simp add: split_runs_space)
  next
    case False
    then show ?thesis using Cons.IH [of "cur @ [c]"] by simp
  qed
qed

lemma tokens_from_split_runs: "tokens_from [] s = split_runs s"
proof (cases s)
  case Nil
  then show ?thesis by (simp add: split_runs_nil)
next
  case (Cons d r)
  then show ?thesis
    using tokens_from_runs [of "[]" s] by (cases "isspace d") (simp_all add: split_runs_nonspace)
qed

lemma split_runs_tokens:
  "t \<in> set (split_runs s) \<Longrightarrow> t \<noteq> [] \<and> (\<forall>c\<in>set t. \<not> isspace c)"
proof (induction s rule: length_induct)
  case (1 s)
  note IH = "1.IH" [rule_format]
  show ?case
  proof (cases s)
    case Nil
    with "1.prems" show ?thesis by (simp add: split_runs_nil)
  next
    case (Cons d r)
    show ?thesis
    proof (cases "isspace d")
      case True
      with "1.prems" Cons have "t \<in> set (split_runs r)" by (simp add: split_runs_space)
      moreover have "length r < length s" using Cons by simp
      ultimately show ?thesis by (rule IH [rotated])
    next
      case False
      let ?rest = "dropWhile (\<lambda>x. \<not> isspace x) r"
      have len: "length ?rest < length s"
        using Cons length_dropWhile_le [of "\<lambda>x. \<not> isspace x" r] by simp
      from "1.prems" Cons False
      consider "t = d # takeWhile (\<lambda>x. \<not> isspace x) r" | "t \<in> set (split_runs ?rest)"
        by (auto simp: split_runs_nonspace)
      then show ?thesis
      proof cases
        case 1
        with False show ?thesis by (auto dest: set_takeWhileD)
      next
        case 2
        from IH [OF len 2] show ?thesis .
      qed
    qed
  qed
qed

lemma split_runs_word:
  assumes "w \<noteq> []" "\<forall>c\<in>set w. \<not> isspace c" "s = [] \<or> isspace (hd s)"
  shows "split_runs (w @ s) = w # split_runs (dropWhile (\<lambda>x. \<not> isspace x) s)"
proof -
  from assms obtain c r where w: "w = c # r" by (cases w) auto
  with assms have c: "\<not> isspace c" and r: "\<forall>x\<in>set r. \<not> isspace x" by auto
  from assms(3) have tw: "takeWhile (\<lambda>x. \<not> isspace x) s = []" by (cases s) auto
  have "takeWhile (\<lambda>x. \<not> isspace x) (r @ s) = r"
    using r tw by (simp add: takeWhile_append2)
  moreover have "dropWhile (\<lambda>x. \<not> isspace x) (r @ s) = dropWhile (\<lambda>x. \<not> isspace x) s"
    using r by (simp add: dropWhile_append2)
  ultimately show ?thesis using c w by (simp add: split_runs_nonspace)
qed

lemma isspace_32: "isspace 32"
  by (simp add: isspace_def)

lemma split_runs_join:
  "\<forall>w\<in>set ws. w \<noteq> [] \<and> (\<forall>c\<in>set w. \<not> isspace c) \<Longrightarrow> split_runs (join_spaces ws) = ws"
proof (induction ws rule: join_spaces.induct)
  case 1
  then show ?case by (simp add: split_runs_nil)
next
  case (2 w)
  then show ?case using split_runs_word [of w "[]"] by (simp add: split_runs_nil)
next
  case (3 w v ws)
  then have "split_runs (w @ 32 # join_spaces (v # ws))
      = w # split_runs (dropWhile (\<lambda>x. \<not> isspace x) (32 # join_spaces (v # ws)))"
    by (intro split_runs_word) (simp_all add: isspace_32)
  with 3 show ?case by (simp add: isspace_32 split_runs_space)
qed

lemma read_words_lines: "read_words lines = concat (map split_runs lines)"
proof -
  have "fold read_line lines ws = ws @ concat (map split_runs lines)" for ws
    by (induction lines arbitrary: ws) (simp_all add: read_line_tokens tokens_from_split_runs)
  then show ?thesis by (simp add: read_words_def)
qed

text \<open>
  C9. For every line, joining the tokens of the line with single spaces and tokenizing
  the result gives the same tokens. The tokens of a line are its maximal runs of
  non-whitespace characters (\<open>split_runs\<close>); none is empty and none contains a whitespace
  character.
\<close>

theorem read_words_round_trip:
  "read_words [join_spaces (read_words [line])] = read_words [line]
   \<and> read_words [line] = split_runs line
   \<and> (\<forall>t\<in>set (read_words [line]). t \<noteq> [] \<and> (\<forall>c\<in>set t. \<not> isspace c))"
proof -
  have rw: "read_words [l] = split_runs l" for l
    by (simp add: read_words_lines)
  have tok: "\<forall>t\<in>set (split_runs line). t \<noteq> [] \<and> (\<forall>c\<in>set t. \<not> isspace c)"
    using split_runs_tokens by blast
  from split_runs_join [OF tok] tok show ?thesis by (simp only: rw)
qed

lemma code_points_example:
  "code_points ''  The  the THE '' = [32, 32, 84, 104, 101, 32, 32, 116, 104, 101, 32, 84, 72, 69, 32]"
  by (simp add: code_points_def)

lemma read_words_example:
  "read_words [code_points ''  The  the THE ''] = [code_points ''The'', code_points ''the'', code_points ''THE'']"
  by (simp add: read_words_single code_points_def isspace_def)

lemma read_words_empty_line: "read_words [[]] = []"
  by (simp add: read_words_single)

theorem read_words_round_trip_witness:
  "read_words [code_points ''  The  the THE '']
     = [code_points ''The'', code_points ''the'', code_points ''THE'']
   \<and> read_words [join_spaces (read_words [code_points ''  The  the THE ''])]
     = read_words [code_points ''  The  the THE '']
   \<and> join_spaces (read_words [code_points ''  The  the THE '']) = code_points ''The the THE''
   \<and> read_words [[]] = []"
proof -
  have j: "join_spaces [code_points ''The'', code_points ''the'', code_points ''THE'']
      = code_points ''The the THE''"
    by (simp add: code_points_def)
  have j': "join_spaces (read_words [code_points ''  The  the THE '']) = code_points ''The the THE''"
    by (simp only: read_words_example j)
  from read_words_round_trip [of "code_points ''  The  the THE ''"]
  have "read_words [join_spaces (read_words [code_points ''  The  the THE ''])]
     = read_words [code_points ''  The  the THE '']"
    by blast
  with read_words_example j' read_words_empty_line show ?thesis by blast
qed

lemma lower_word_map: "lower_word word = map lower_char word"
proof -
  have "fold (\<lambda>char w. w @ [lower_char char]) word acc = acc @ map lower_char word" for acc
    by (induction word arbitrary: acc) simp_all
  then show ?thesis by (simp add: lower_word_def)
qed

lemma count_step_frequency: "count_step word freq = frequency_step (lower_word word) freq"
  by (simp add: count_step_def frequency_step_def dict_get_def split: option.splits)

lemma count_words_frequency: "count_words words = frequency_table (map lower_word words)"
proof -
  have "fold count_step words d = fold frequency_step (map lower_word words) d" for d
    by (induction words arbitrary: d) (simp_all add: count_step_frequency)
  then show ?thesis by (simp add: count_words_def frequency_table_def)
qed

lemma count_words_the:
  "count_words (read_words [code_points ''The the THE'']) = [(code_points ''the'', 3)]"
proof -
  have "read_words [code_points ''The the THE'']
      = [code_points ''The'', code_points ''the'', code_points ''THE'']"
    by (simp add: read_words_single code_points_def isspace_def)
  moreover have "map lower_word [code_points ''The'', code_points ''the'', code_points ''THE'']
      = [code_points ''the'', code_points ''the'', code_points ''the'']"
    by (simp add: lower_word_map lower_char_def code_points_def)
  moreover have "frequency_table [code_points ''the'', code_points ''the'', code_points ''the'']
      = [(code_points ''the'', 3)]"
    by (simp add: frequency_table_def frequency_step_def dict_get_def)
  ultimately show ?thesis by (simp only: count_words_frequency)
qed

lemma count_words_dog:
  "count_words [code_points ''Dog,'', code_points ''dog'']
     = [(code_points ''dog,'', 1), (code_points ''dog'', 1)]"
proof -
  have "map lower_word [code_points ''Dog,'', code_points ''dog'']
      = [code_points ''dog,'', code_points ''dog'']"
    by (simp add: lower_word_map lower_char_def code_points_def)
  moreover have "frequency_table [code_points ''dog,'', code_points ''dog'']
      = [(code_points ''dog,'', 1), (code_points ''dog'', 1)]"
    by (simp add: frequency_table_def frequency_step_def dict_get_def code_points_def)
  ultimately show ?thesis by (simp only: count_words_frequency)
qed

text \<open>
  C8. \<open>count_words\<close> lowers each word character by character: the code points 65 to 90
  (A to Z) move up by 32 (to a to z) and every other character stays as it is. It then
  counts the lowered words: the dictionary holds each distinct lowered word, in the
  order of first occurrence, with the number of its occurrences. The tokens of
  \<open>"The the THE"\<close> give \<open>{"the": 3}\<close>; \<open>"Dog,"\<close> and \<open>"dog"\<close> give two entries.
\<close>

theorem count_words_folds_ascii:
  "lower_word word = map lower_char word
   \<and> (\<forall>c. (65 \<le> c \<and> c \<le> 90 \<longrightarrow> lower_char c = c + 32)
          \<and> (\<not> (65 \<le> c \<and> c \<le> 90) \<longrightarrow> lower_char c = c))
   \<and> count_words words
       = map (\<lambda>k. (k, count_list (map lower_word words) k)) (first_occurrences (map lower_word words))
   \<and> count_words (read_words [code_points ''The the THE'']) = [(code_points ''the'', 3)]
   \<and> count_words [code_points ''Dog,'', code_points ''dog'']
       = [(code_points ''dog,'', 1), (code_points ''dog'', 1)]"
proof (intro conjI)
  show "lower_word word = map lower_char word" by (rule lower_word_map)
  show "\<forall>c. (65 \<le> c \<and> c \<le> 90 \<longrightarrow> lower_char c = c + 32)
          \<and> (\<not> (65 \<le> c \<and> c \<le> 90) \<longrightarrow> lower_char c = c)"
    by (simp add: lower_char_def)
  show "count_words words
       = map (\<lambda>k. (k, count_list (map lower_word words) k)) (first_occurrences (map lower_word words))"
    by (simp only: count_words_frequency frequency_table_eq)
  show "count_words (read_words [code_points ''The the THE'']) = [(code_points ''the'', 3)]"
    by (rule count_words_the)
  show "count_words [code_points ''Dog,'', code_points ''dog'']
       = [(code_points ''dog,'', 1), (code_points ''dog'', 1)]"
    by (rule count_words_dog)
qed

theorem count_words_folds_ascii_witness:
  "lower_word (code_points ''Dog,'') = code_points ''dog,''
   \<and> lower_char 84 = 116 \<and> lower_char 44 = 44 \<and> lower_char 233 = 233
   \<and> count_words (read_words [code_points ''The the THE'']) = [(code_points ''the'', 3)]
   \<and> code_points ''dog,'' \<noteq> code_points ''dog''"
  using count_words_folds_ascii [of "code_points ''Dog,''" "[]"]
  by (simp add: code_points_def lower_char_def)

section \<open>Properties of convertNumbers.py\<close>

lemma char_of_digit_eq: "n < 256 \<Longrightarrow> of_char c = n \<Longrightarrow> char_of n = c" for n :: nat
  by (metis char_of_char)

lemma py_str_0: "py_str 0 = ''0''"
  by (simp add: py_str_def str_nat.simps char_of_digit_eq)

lemma py_str_1: "py_str 1 = ''1''"
  by (simp add: py_str_def str_nat.simps char_of_digit_eq)

lemma div_mod_scale: "(num div b) * (b * p) + (num mod b) * p = num * p" for num b p :: int
proof -
  have "num * p = ((num div b) * b + num mod b) * p" by simp
  also have "\<dots> = (num div b) * (b * p) + (num mod b) * p"
    by (simp only: distrib_right mult.assoc)
  finally show ?thesis by simp
qed

lemma py_str_mod2: "py_str (num mod 2) = (if num mod 2 = 0 then ''0'' else ''1'')"
proof -
  have "num mod 2 = 0 \<or> num mod 2 = 1" by presburger
  then show ?thesis by (auto simp: py_str_0 py_str_1)
qed

lemma digit_value_0: "digit_value CHR ''0'' = 0"
  by (simp add: digit_value_def)

lemma digit_value_1: "digit_value CHR ''1'' = 1"
  by (simp add: digit_value_def)

lemma foldl_string_value:
  "foldl (\<lambda>a c. a * base + digit_value c) a s = a * base ^ length s + string_value base s"
proof (induction s arbitrary: a)
  case Nil
  then show ?case by (simp add: string_value_def)
next
  case (Cons c s)
  have "string_value base (c # s) = foldl (\<lambda>a c. a * base + digit_value c) (digit_value c) s"
    by (simp add: string_value_def)
  also have "\<dots> = digit_value c * base ^ length s + string_value base s"
    by (rule Cons.IH)
  finally have sv: "string_value base (c # s) = digit_value c * base ^ length s + string_value base s" .
  have "foldl (\<lambda>a c. a * base + digit_value c) a (c # s)
      = foldl (\<lambda>a c. a * base + digit_value c) (a * base + digit_value c) s" by simp
  also have "\<dots> = (a * base + digit_value c) * base ^ length s + string_value base s"
    by (rule Cons.IH)
  finally show ?case by (simp add: sv algebra_simps)
qed

lemma string_value_Nil: "string_value base [] = 0"
  by (simp add: string_value_def)

lemma string_value_Cons:
  "string_value base (c # s) = digit_value c * base ^ length s + string_value base s"
  using foldl_string_value [of base "digit_value c" s] by (simp add: string_value_def)

lemma string_value_append:
  "string_value base (s @ t) = string_value base s * base ^ length t + string_value base t"
  by (induction s) (simp_all add: string_value_Nil string_value_Cons algebra_simps power_add)

lemma binary_loop_stop: "\<not> 0 < num \<Longrightarrow> binary_loop num acc = acc"
  by (simp add: binary_loop.simps)

lemma binary_loop_step:
  "0 < num \<Longrightarrow> binary_loop num acc = binary_loop (num div 2) (py_str (num mod 2) @ acc)"
  by (subst binary_loop.simps) simp

lemma binary_loop_value:
  "0 \<le> num \<Longrightarrow>
   int (string_value 2 (binary_loop num acc)) = num * 2 ^ length acc + int (string_value 2 acc)"
proof (induction num acc rule: binary_loop.induct)
  case (1 num acc)
  show ?case
  proof (cases "0 < num")
    case False
    with "1.prems" have "num = 0" by simp
    then show ?thesis by (simp add: binary_loop_stop)
  next
    case True
    let ?d = "py_str (num mod 2)"
    have len: "length (?d @ acc) = Suc (length acc)" by (simp add: py_str_mod2)
    have dv: "int (string_value 2 (?d @ acc)) = (num mod 2) * 2 ^ length acc + int (string_value 2 acc)"
      by (simp add: py_str_mod2 string_value_Cons digit_value_0 digit_value_1)
    from True have "0 \<le> num div 2" by simp
    from "1.IH" [OF True this]
    have "int (string_value 2 (binary_loop num acc))
        = (num div 2) * 2 ^ Suc (length acc) + ((num mod 2) * 2 ^ length acc + int (string_value 2 acc))"
      by (simp only: binary_loop_step [OF True] len dv)
    also have "\<dots> = num * 2 ^ length acc + int (string_value 2 acc)"
      using div_mod_scale [of num 2 "2 ^ length acc"] by simp
    finally show ?thesis .
  qed
qed

lemma binary_loop_chars:
  "set (binary_loop num acc) \<subseteq> {CHR ''0'', CHR ''1''} \<union> set acc"
proof (induction num acc rule: binary_loop.induct)
  case (1 num acc)
  show ?case
  proof (cases "0 < num")
    case False
    then show ?thesis by (auto simp: binary_loop_stop)
  next
    case True
    have "set (py_str (num mod 2) @ acc) \<subseteq> {CHR ''0'', CHR ''1''} \<union> set acc"
      by (auto simp: py_str_mod2)
    with "1.IH" [OF True] show ?thesis
      by (simp only: binary_loop_step [OF True]) blast
  qed
qed

lemma binary_loop_hd: "0 < num \<Longrightarrow> hd (binary_loop num acc) = CHR ''1''"
proof (induction num acc rule: binary_loop.induct)
  case (1 num acc)
  note pos = "1.prems"
  show ?case
  proof (cases "0 < num div 2")
    case True
    from "1.IH" [OF pos True] show ?thesis by (simp only: binary_loop_step [OF pos])
  next
    case False
    with pos have one: "num = 1" by presburger
    then have "binary_loop num acc = binary_loop 0 (''1'' @ acc)"
      using binary_loop_step [OF pos, of acc] by (simp add: py_str_1)
    then show ?thesis by (simp add: binary_loop_stop)
  qed
qed

lemma fold_append_each: "fold (\<lambda>i s. s @ f i) xs acc = acc @ concat (map f xs)"
  by (induction xs arbitrary: acc) simp_all

lemma bit_digit: "drop_bit k v AND 1 = of_bool (bit v k)" for v :: int
  by (simp add: and_one_eq mod_2_eq_odd bit_iff_odd_drop_bit)

lemma py_str_bit:
  "py_str (drop_bit k v AND 1) = [if bit v k then CHR ''1'' else CHR ''0'']"
  by (simp add: bit_digit py_str_0 py_str_1)

lemma binary_fixed_bit_chars: "binary_fixed n v = bit_chars n v"
proof -
  have "concat (map (\<lambda>i. [g i]) xs) = map g xs" for g :: "nat \<Rightarrow> char" and xs
    by (induction xs) simp_all
  then show ?thesis
    by (simp add: binary_fixed_def fold_append_each py_str_bit bit_chars_def)
qed

lemma bit_chars_Suc:
  "bit_chars (Suc n) v = (if bit v n then CHR ''1'' else CHR ''0'') # bit_chars n v"
proof -
  have "[0..<Suc n] = 0 # map Suc [0..<n]"
    by (simp add: upt_conv_Cons map_Suc_upt del: upt_Suc)
  then show ?thesis
    by (simp add: bit_chars_def comp_def del: upt_Suc)
qed

lemma length_bit_chars: "length (bit_chars n v) = n"
  by (simp add: bit_chars_def)

lemma set_bit_chars: "set (bit_chars n v) \<subseteq> {CHR ''0'', CHR ''1''}"
  by (auto simp: bit_chars_def)

lemma bit_chars_value: "int (string_value 2 (bit_chars n v)) = take_bit n v"
proof (induction n)
  case 0
  then show ?case by (simp add: bit_chars_def string_value_Nil)
next
  case (Suc n)
  then show ?case
    by (simp add: bit_chars_Suc string_value_Cons length_bit_chars digit_value_0 digit_value_1
        take_bit_Suc_from_most)
qed

lemma mask_10: "push_bit 10 1 - 1 = (mask 10 :: int)"
  by (simp add: mask_eq_exp_minus_1 push_bit_eq_mult)

lemma mask_32: "push_bit 32 1 - 1 = (mask 32 :: int)"
  by (simp add: mask_eq_exp_minus_1 push_bit_eq_mult)

lemma convert_to_binary_negative:
  "num < 0 \<Longrightarrow> convert_to_binary num = bit_chars 10 (take_bit 10 num)"
  by (simp add: convert_to_binary_def Let_def binary_fixed_bit_chars mask_10 take_bit_eq_mask
      del: push_bit_numeral push_bit_of_1)

lemma convert_to_binary_negative_value:
  "num < 0 \<Longrightarrow> int (string_value 2 (convert_to_binary num)) = num mod 2 ^ 10"
  by (simp only: convert_to_binary_negative bit_chars_value take_bit_take_bit take_bit_eq_mod) simp

lemma length_hex_digits: "length hex_digits = 16"
  by (simp add: hex_digits_def)

lemma hex_digits_table:
  "list_all (\<lambda>n. digit_value (hex_digits ! n) = n \<and> (hex_digits ! n = CHR ''0'' \<longleftrightarrow> n = 0)) [0..<16]"
  by (simp add: upt_rec hex_digits_def digit_value_def)

lemma hex_digit_nth:
  assumes "n < 16"
  shows "digit_value (hex_digits ! n) = n" and "hex_digits ! n = CHR ''0'' \<longleftrightarrow> n = 0"
    and "hex_digits ! n \<in> set hex_digits"
proof -
  from assms have "n \<in> set [0..<16]" by simp
  with hex_digits_table show "digit_value (hex_digits ! n) = n"
    and "hex_digits ! n = CHR ''0'' \<longleftrightarrow> n = 0"
    unfolding list_all_iff by blast+
  from assms show "hex_digits ! n \<in> set hex_digits"
    by (simp add: length_hex_digits)
qed

lemma py_index_hex_digits:
  "py_index hex_digits (v mod 16) = Inr (hex_digits ! nat (v mod 16))"
  by (rule py_index_in_range) (simp_all add: length_hex_digits)

lemma and_15: "v AND 15 = v mod 16" for v :: int
proof -
  have "v AND mask 4 = v mod 2 ^ 4"
    by (simp only: take_bit_eq_mask [symmetric] take_bit_eq_mod)
  moreover have "(mask 4 :: int) = 15" by (simp add: mask_eq_exp_minus_1)
  ultimately show ?thesis by simp
qed

lemma hex_fixed_digits:
  "\<exists>ds. hex_fixed k v acc = Inr (ds @ acc) \<and> length ds = k \<and> set ds \<subseteq> set hex_digits
        \<and> int (string_value 16 ds) = v mod 16 ^ k"
proof (induction k arbitrary: v acc)
  case 0
  then show ?case by (simp add: string_value_Nil)
next
  case (Suc k)
  let ?n = "nat (v mod 16)"
  let ?d = "hex_digits ! ?n"
  have n: "?n < 16" by simp
  from Suc [of "v div 16" "?d # acc"] obtain ds
    where run: "hex_fixed k (v div 16) (?d # acc) = Inr (ds @ ?d # acc)"
      and len: "length ds = k" and chars: "set ds \<subseteq> set hex_digits"
      and val: "int (string_value 16 ds) = (v div 16) mod 16 ^ k"
    by blast
  have "hex_fixed (Suc k) v acc = Inr ((ds @ [?d]) @ acc)"
    by (simp add: and_15 py_index_hex_digits run)
  moreover have "length (ds @ [?d]) = Suc k" using len by simp
  moreover have "set (ds @ [?d]) \<subseteq> set hex_digits"
    using chars hex_digit_nth(3) [OF n] by simp
  moreover have "int (string_value 16 (ds @ [?d])) = v mod 16 ^ Suc k"
  proof -
    have "int (string_value 16 (ds @ [?d])) = int (string_value 16 ds) * 16 + int ?n"
      by (simp add: string_value_append string_value_Cons string_value_Nil hex_digit_nth(1) [OF n])
    also have "\<dots> = 16 * ((v div 16) mod 16 ^ k) + v mod 16"
      by (simp add: val)
    also have "\<dots> = v mod (16 * 16 ^ k)"
      by (rule zmod_zmult2_eq [symmetric]) simp
    finally show ?thesis by simp
  qed
  ultimately show ?case by blast
qed

lemma hex_loop_stop: "\<not> 0 < num \<Longrightarrow> hex_loop num acc = Inr acc"
  by (simp add: hex_loop.simps)

lemma hex_loop_step:
  "0 < num \<Longrightarrow> hex_loop num acc = hex_loop (num div 16) (hex_digits ! nat (num mod 16) # acc)"
  by (subst hex_loop.simps) (simp add: py_index_hex_digits)

lemma hex_loop_digits:
  "0 \<le> num \<Longrightarrow>
   \<exists>ds. hex_loop num acc = Inr (ds @ acc) \<and> set ds \<subseteq> set hex_digits
        \<and> int (string_value 16 ds) = num \<and> (0 < num \<longrightarrow> ds \<noteq> [] \<and> hd ds \<noteq> CHR ''0'')"
proof (induction num acc rule: hex_loop.induct)
  case (1 num acc)
  show ?case
  proof (cases "0 < num")
    case False
    with "1.prems" have "num = 0" by simp
    then show ?thesis by (simp add: hex_loop_stop string_value_Nil)
  next
    case True
    let ?n = "nat (num mod 16)"
    let ?d = "hex_digits ! ?n"
    have n: "?n < 16" by simp
    from True have nonneg: "0 \<le> num div 16" by simp
    from "1.IH" [OF True py_index_hex_digits nonneg] obtain ds
      where run: "hex_loop (num div 16) (?d # acc) = Inr (ds @ ?d # acc)"
        and chars: "set ds \<subseteq> set hex_digits"
        and val: "int (string_value 16 ds) = num div 16"
        and lead: "0 < num div 16 \<longrightarrow> ds \<noteq> [] \<and> hd ds \<noteq> CHR ''0''"
      by blast
    have "hex_loop num acc = Inr ((ds @ [?d]) @ acc)"
      by (simp add: hex_loop_step [OF True] run)
    moreover have "set (ds @ [?d]) \<subseteq> set hex_digits"
      using chars hex_digit_nth(3) [OF n] by simp
    moreover have "int (string_value 16 (ds @ [?d])) = num"
    proof -
      have "int (string_value 16 (ds @ [?d])) = int (string_value 16 ds) * 16 + int ?n"
        by (simp add: string_value_append string_value_Cons string_value_Nil hex_digit_nth(1) [OF n])
      also have "\<dots> = (num div 16) * 16 + num mod 16" by (simp add: val)
      finally show ?thesis by simp
    qed
    moreover have "ds @ [?d] \<noteq> [] \<and> hd (ds @ [?d]) \<noteq> CHR ''0''"
    proof (cases "0 < num div 16")
      case True
      with lead show ?thesis by simp
    next
      case False
      with nonneg have z: "num div 16 = 0" by simp
      with run have "ds = []" by (simp add: hex_loop_stop)
      moreover from z True have "?n \<noteq> 0" by (simp add: div_eq_0_iff nat_eq_iff) 
      ultimately show ?thesis by (simp add: hex_digit_nth(2) [OF n])
    qed
    ultimately show ?thesis by blast
  qed
qed

lemma convert_to_hexadecimal_negative:
  "num < 0 \<Longrightarrow> convert_to_hexadecimal num = hex_fixed 8 (take_bit 32 num) []"
  by (simp add: convert_to_hexadecimal_def Let_def mask_32 take_bit_eq_mask
      del: push_bit_numeral push_bit_of_1)

lemma convert_to_hexadecimal_negative_digits:
  assumes "num < 0"
  shows "\<exists>s. convert_to_hexadecimal num = Inr s \<and> length s = 8 \<and> set s \<subseteq> set hex_digits
           \<and> int (string_value 16 s) = num mod 2 ^ 32"
proof -
  from hex_fixed_digits [of 8 "take_bit 32 num" "[]"] obtain ds
    where run: "hex_fixed 8 (take_bit 32 num) [] = Inr ds" and len: "length ds = 8"
      and chars: "set ds \<subseteq> set hex_digits"
      and val: "int (string_value 16 ds) = take_bit 32 num mod 16 ^ 8"
    by auto
  have "take_bit 32 num mod 16 ^ 8 = num mod 2 ^ 32"
    by (simp add: take_bit_eq_mod)
  with run len chars val show ?thesis
    by (simp add: convert_to_hexadecimal_negative [OF assms])
qed

lemma convert_to_binary_positive:
  assumes "0 < num"
  shows "set (convert_to_binary num) \<subseteq> {CHR ''0'', CHR ''1''}"
    and "int (string_value 2 (convert_to_binary num)) = num"
    and "convert_to_binary num \<noteq> []"
    and "hd (convert_to_binary num) \<noteq> CHR ''0''"
proof -
  from assms have c: "convert_to_binary num = binary_loop num []"
    by (simp add: convert_to_binary_def)
  show "set (convert_to_binary num) \<subseteq> {CHR ''0'', CHR ''1''}"
    using binary_loop_chars [of num "[]"] by (simp add: c)
  from assms show v: "int (string_value 2 (convert_to_binary num)) = num"
    using binary_loop_value [of num "[]"] by (simp add: c string_value_Nil)
  from v assms show "convert_to_binary num \<noteq> []"
    by (auto simp: string_value_Nil)
  from assms show "hd (convert_to_binary num) \<noteq> CHR ''0''"
    by (simp add: c binary_loop_hd)
qed

lemma convert_to_hexadecimal_positive:
  assumes "0 < num"
  shows "\<exists>s. convert_to_hexadecimal num = Inr s \<and> set s \<subseteq> set hex_digits
           \<and> int (string_value 16 s) = num \<and> s \<noteq> [] \<and> hd s \<noteq> CHR ''0''"
proof -
  from assms have c: "convert_to_hexadecimal num = hex_loop num []"
    by (simp add: convert_to_hexadecimal_def)
  from assms hex_loop_digits [of num "[]"] show ?thesis
    by (auto simp: c)
qed

lemma convert_zero:
  "convert_to_binary 0 = ''0''" "convert_to_hexadecimal 0 = Inr ''0''"
  by (simp_all add: convert_to_binary_def convert_to_hexadecimal_def)

lemma convert_to_binary_5: "convert_to_binary 5 = ''101''"
  by code_simp

lemma convert_to_hexadecimal_255: "convert_to_hexadecimal 255 = Inr ''FF''"
  by code_simp

lemma convert_to_binary_minus_1: "convert_to_binary (- 1) = ''1111111111''"
  by code_simp

lemma convert_to_binary_minus_513: "convert_to_binary (- 513) = ''0111111111''"
  by code_simp

lemma convert_to_hexadecimal_minus_1: "convert_to_hexadecimal (- 1) = Inr ''FFFFFFFF''"
  by code_simp

text \<open>
  C2. For a negative \<open>num\<close>, \<open>convert_to_binary\<close> returns exactly 10 binary digits whose
  value, read most significant digit first, is \<open>num mod 2^10\<close> (so a number below \<open>-512\<close>
  is truncated by the mask, without any error), and \<open>convert_to_hexadecimal\<close> returns
  exactly 8 digits out of \<open>0123456789ABCDEF\<close> whose value is \<open>num mod 2^32\<close>. For zero
  both return \<open>"0"\<close>. For a positive \<open>num\<close> both return the digits of \<open>num\<close> itself with
  no leading zero, which is the representation of minimal width.
\<close>

theorem convert_numbers_representation:
  "(num < 0 \<longrightarrow>
      length (convert_to_binary num) = 10
      \<and> set (convert_to_binary num) \<subseteq> {CHR ''0'', CHR ''1''}
      \<and> int (string_value 2 (convert_to_binary num)) = num mod 2 ^ 10
      \<and> (\<exists>s. convert_to_hexadecimal num = Inr s \<and> length s = 8 \<and> set s \<subseteq> set hex_digits
             \<and> int (string_value 16 s) = num mod 2 ^ 32))
   \<and> (num = 0 \<longrightarrow> convert_to_binary num = ''0'' \<and> convert_to_hexadecimal num = Inr ''0'')
   \<and> (0 < num \<longrightarrow>
      set (convert_to_binary num) \<subseteq> {CHR ''0'', CHR ''1''}
      \<and> int (string_value 2 (convert_to_binary num)) = num
      \<and> convert_to_binary num \<noteq> [] \<and> hd (convert_to_binary num) \<noteq> CHR ''0''
      \<and> (\<exists>s. convert_to_hexadecimal num = Inr s \<and> set s \<subseteq> set hex_digits
             \<and> int (string_value 16 s) = num \<and> s \<noteq> [] \<and> hd s \<noteq> CHR ''0''))"
proof (intro conjI impI)
  assume neg: "num < 0"
  show "length (convert_to_binary num) = 10"
    by (simp only: convert_to_binary_negative [OF neg] length_bit_chars)
  show "set (convert_to_binary num) \<subseteq> {CHR ''0'', CHR ''1''}"
    by (simp only: convert_to_binary_negative [OF neg] set_bit_chars)
  show "int (string_value 2 (convert_to_binary num)) = num mod 2 ^ 10"
    by (rule convert_to_binary_negative_value [OF neg])
  show "\<exists>s. convert_to_hexadecimal num = Inr s \<and> length s = 8 \<and> set s \<subseteq> set hex_digits
             \<and> int (string_value 16 s) = num mod 2 ^ 32"
    by (rule convert_to_hexadecimal_negative_digits [OF neg])
next
  assume "num = 0"
  then show "convert_to_binary num = ''0''" and "convert_to_hexadecimal num = Inr ''0''"
    by (simp_all only: convert_zero)
next
  assume pos: "0 < num"
  show "set (convert_to_binary num) \<subseteq> {CHR ''0'', CHR ''1''}"
    and "int (string_value 2 (convert_to_binary num)) = num"
    and "convert_to_binary num \<noteq> []"
    and "hd (convert_to_binary num) \<noteq> CHR ''0''"
    by (rule convert_to_binary_positive [OF pos])+
  show "\<exists>s. convert_to_hexadecimal num = Inr s \<and> set s \<subseteq> set hex_digits
             \<and> int (string_value 16 s) = num \<and> s \<noteq> [] \<and> hd s \<noteq> CHR ''0''"
    by (rule convert_to_hexadecimal_positive [OF pos])
qed

theorem convert_numbers_representation_witness:
  "convert_to_binary (- 1) = ''1111111111''
   \<and> length (convert_to_binary (- 1)) = 10
   \<and> convert_to_binary (- 513) = ''0111111111''
   \<and> int (string_value 2 (convert_to_binary (- 513))) = 511
   \<and> convert_to_hexadecimal (- 1) = Inr ''FFFFFFFF''
   \<and> convert_to_binary 5 = ''101''
   \<and> int (string_value 2 (convert_to_binary 5)) = 5
   \<and> convert_to_binary 0 = ''0''
   \<and> convert_to_hexadecimal 0 = Inr ''0''
   \<and> convert_to_hexadecimal 255 = Inr ''FF''"
proof -
  have "length (convert_to_binary (- 1)) = 10"
    using convert_numbers_representation [of "- 1"] by simp
  moreover have "int (string_value 2 (convert_to_binary (- 513))) = 511"
    using convert_numbers_representation [of "- 513"] by simp
  moreover have "int (string_value 2 (convert_to_binary 5)) = 5"
    using convert_numbers_representation [of 5] by simp
  moreover have "convert_to_binary 0 = ''0''" "convert_to_hexadecimal 0 = Inr ''0''"
    using convert_numbers_representation [of 0] by simp_all
  ultimately show ?thesis
    using convert_to_binary_5 convert_to_hexadecimal_255 convert_to_binary_minus_1
      convert_to_binary_minus_513 convert_to_hexadecimal_minus_1
    by blast
qed

end
